theory Spec2Isabelle
  imports Main "HOL-Library.Word" "HOL-Library.Multiset"
begin

section \<open>Cache line best-effort field randomization (LayoutFieldRandomizer.cpp)\<close>

text \<open>
  The development follows \<^verbatim>\<open>clang/lib/AST/LayoutFieldRandomizer.cpp\<close>. A member
  (\<^verbatim>\<open>FieldDecl *\<close>) is a value of an arbitrary type \<open>'a\<close>; the algorithm never
  looks inside it, it only asks whether it is a bit-field and how wide its type is.
  \<^verbatim>\<open>size_t\<close> and the \<^verbatim>\<open>uint64_t\<close> width of \<^verbatim>\<open>TypeInfo\<close> are 64-bit words
  (an LP64 host), so \<open>+\<close> wraps as it does in the source.
\<close>

type_synonym size_t = "64 word"

subsection \<open>External collaborators\<close>

text \<open>
  What the declaration system tells the algorithm about a member:
  \<^verbatim>\<open>f->isBitField()\<close> and \<^verbatim>\<open>ctx.getTypeInfo(f->getType()).Width\<close>.
\<close>

record 'a ASTContext =
  isBitField :: "'a \<Rightarrow> bool"
  getTypeWidth :: "'a \<Rightarrow> size_t"

text \<open>
  The process-wide configuration of \<^verbatim>\<open>RandstructSeed.h\<close>; the randomizer reads
  \<open>RandstructSeed\<close> and never writes either variable.
\<close>

record globals =
  RandstructSeed :: string
  RandstructAutoSelect :: bool

definition initial_globals :: globals where
  "initial_globals = \<lparr>RandstructSeed = '''', RandstructAutoSelect = False\<rparr>"

text \<open>
  The C++ standard library is not part of the program and is a parameter of the model.
  \<open>default_random_engine s\<close> is the engine obtained by
  \<^verbatim>\<open>std::seed_seq Seq(s.begin(), s.end()); std::default_random_engine{Seq}\<close>, and
  \<open>shuffle_order rng n\<close> is the order in which \<^verbatim>\<open>std::shuffle\<close>, driven by
  the engine \<open>rng\<close>, leaves a range of \<open>n\<close> elements: position \<open>k\<close> of the result
  holds the element that was at position \<open>shuffle_order rng n ! k\<close>. The library only
  swaps elements and never inspects them, so the order depends on the engine and on the
  length of the range alone.
\<close>

record 'g stdlib =
  default_random_engine :: "string \<Rightarrow> 'g"
  shuffle_order :: "'g \<Rightarrow> nat \<Rightarrow> nat list"

definition std_shuffle :: "'g stdlib \<Rightarrow> 'g \<Rightarrow> 'b list \<Rightarrow> 'b list" where
  "std_shuffle lib rng xs = map (\<lambda>i. xs ! i) (shuffle_order lib rng (length xs))"

text \<open>
  A library conforms when \<^verbatim>\<open>std::shuffle\<close> permutes: the order it produces for a
  range of \<open>n\<close> elements lists every position below \<open>n\<close> exactly once.
\<close>

definition conforming :: "'g stdlib \<Rightarrow> bool" where
  "conforming lib = (\<forall>rng n. mset (shuffle_order lib rng n) = mset [0..<n])"

subsection \<open>Buckets\<close>

text \<open>
  \<^verbatim>\<open>class Bucket\<close> with its two data members, and \<^verbatim>\<open>class BitfieldRun : public Bucket\<close>,
  which adds none: \<open>bucket_size\<close> and \<open>bucket_fields\<close> are the members \<^verbatim>\<open>size\<close>
  and \<^verbatim>\<open>fields\<close>. The flag \<open>bitfieldRun\<close> is the dynamic class of the object; the
  virtual member functions \<open>canFit\<close>, \<open>isBitfieldRun\<close> and \<open>randomize\<close> dispatch on
  it to the definition of the class, \<open>add\<close>, \<open>full\<close> and \<open>empty\<close> are not virtual.
\<close>

record 'a Bucket =
  bitfieldRun :: bool
  bucket_size :: size_t
  bucket_fields :: "'a list"

definition CACHE_LINE :: size_t where
  "CACHE_LINE = 64"

text \<open>\<^verbatim>\<open>llvm::make_unique<Bucket>()\<close> value-initializes: \<open>size\<close> is 0 and \<open>fields\<close> is empty.\<close>

definition make_Bucket :: "'a Bucket" where
  "make_Bucket = \<lparr>bitfieldRun = False, bucket_size = 0, bucket_fields = []\<rparr>"

definition make_BitfieldRun :: "'a Bucket" where
  "make_BitfieldRun = \<lparr>bitfieldRun = True, bucket_size = 0, bucket_fields = []\<rparr>"

definition Bucket_empty :: "'a Bucket \<Rightarrow> bool" where
  "Bucket_empty b = (bucket_size b = 0)"

definition Bucket_full :: "'a Bucket \<Rightarrow> bool" where
  "Bucket_full b = (bucket_size b \<ge> CACHE_LINE)"

definition Bucket_add :: "'a Bucket \<Rightarrow> 'a \<Rightarrow> size_t \<Rightarrow> 'a Bucket" where
  "Bucket_add b field sz =
     b\<lparr>bucket_fields := bucket_fields b @ [field], bucket_size := bucket_size b + sz\<rparr>"

definition Bucket_canFit :: "'a Bucket \<Rightarrow> size_t \<Rightarrow> bool" where
  "Bucket_canFit b sz = (Bucket_empty b \<or> bucket_size b + sz \<le> CACHE_LINE)"

definition BitfieldRun_canFit :: "'a Bucket \<Rightarrow> size_t \<Rightarrow> bool" where
  "BitfieldRun_canFit b sz = True"

definition canFit :: "'a Bucket \<Rightarrow> size_t \<Rightarrow> bool" where
  "canFit b sz = (if bitfieldRun b then BitfieldRun_canFit b sz else Bucket_canFit b sz)"

definition Bucket_isBitfieldRun :: "'a Bucket \<Rightarrow> bool" where
  "Bucket_isBitfieldRun b = False"

definition BitfieldRun_isBitfieldRun :: "'a Bucket \<Rightarrow> bool" where
  "BitfieldRun_isBitfieldRun b = True"

definition isBitfieldRun :: "'a Bucket \<Rightarrow> bool" where
  "isBitfieldRun b =
     (if bitfieldRun b then BitfieldRun_isBitfieldRun b else Bucket_isBitfieldRun b)"

definition Bucket_randomize :: "'g stdlib \<Rightarrow> globals \<Rightarrow> 'a Bucket \<Rightarrow> 'a list" where
  "Bucket_randomize lib g b =
     (let rng = default_random_engine lib (RandstructSeed g)
      in std_shuffle lib rng (bucket_fields b))"

definition BitfieldRun_randomize :: "'a Bucket \<Rightarrow> 'a list" where
  "BitfieldRun_randomize b = bucket_fields b"

definition randomize :: "'g stdlib \<Rightarrow> globals \<Rightarrow> 'a Bucket \<Rightarrow> 'a list" where
  "randomize lib g b =
     (if bitfieldRun b then BitfieldRun_randomize b else Bucket_randomize lib g b)"

subsection \<open>The partitioning loop of perfrandomize\<close>

text \<open>
  The local variables of \<^verbatim>\<open>perfrandomize\<close>. A \<^verbatim>\<open>std::unique_ptr<Bucket>\<close> is an
  option: \<open>None\<close> is the null pointer, and moving out of a pointer leaves \<open>None\<close>
  behind. \<open>fields_vec\<close> is the parameter \<^verbatim>\<open>fields\<close>, the queue of members still to
  be placed. \<open>skipped\<close> never exceeds the length of the queue, so it is a natural number.
\<close>

record 'a locals =
  fields_vec :: "'a list"
  buckets :: "'a Bucket option list"
  currentBucket :: "'a Bucket option"
  currentBitfieldRun :: "'a Bucket option"
  skipped :: nat

definition initial_locals :: "'a list \<Rightarrow> 'a locals" where
  "initial_locals fs =
     \<lparr>fields_vec = fs, buckets = [], currentBucket = None, currentBitfieldRun = None, skipped = 0\<rparr>"

text \<open>One iteration of the \<^verbatim>\<open>while (!fields.empty())\<close> loop, entered with a non-empty queue.\<close>

definition loop_body :: "'a ASTContext \<Rightarrow> 'a locals \<Rightarrow> 'a locals" where
  "loop_body ctx s0 =
     (let s1 = (if skipped s0 \<ge> length (fields_vec s0)
                then s0\<lparr>skipped := 0,
                        buckets := buckets s0 @ [currentBucket s0],
                        currentBucket := None\<rparr>
                else s0);
          f = hd (fields_vec s1)
      in if isBitField ctx f then
           (let run = (case currentBitfieldRun s1 of
                         None \<Rightarrow> make_BitfieldRun
                       | Some r \<Rightarrow> r)
            in s1\<lparr>currentBitfieldRun := Some (Bucket_add run f 1),
                  fields_vec := tl (fields_vec s1)\<rparr>)
         else
           (let s2 = (case currentBitfieldRun s1 of
                        None \<Rightarrow> s1
                      | Some r \<Rightarrow> s1\<lparr>buckets := buckets s1 @ [Some r],
                                     currentBitfieldRun := None\<rparr>);
                b = (case currentBucket s2 of
                       None \<Rightarrow> make_Bucket
                     | Some b \<Rightarrow> b);
                width = getTypeWidth ctx f
            in if canFit b width then
                 (let b' = Bucket_add b f width;
                      s3 = s2\<lparr>fields_vec := tl (fields_vec s2)\<rparr>
                  in if Bucket_full b'
                     then s3\<lparr>skipped := 0,
                             buckets := buckets s3 @ [Some b'],
                             currentBucket := None\<rparr>
                     else s3\<lparr>currentBucket := Some b'\<rparr>)
               else
                 s2\<lparr>currentBucket := Some b,
                    skipped := skipped s2 + 1,
                    fields_vec := tl (fields_vec s2 @ [f])\<rparr>))"

text \<open>
  The loop itself. Each iteration either takes a member off the queue or, on a skip,
  keeps the length and brings \<open>skipped\<close> one closer to it; when \<open>skipped\<close> has
  reached the length, the iteration starts with a fresh bucket and so places its member.
\<close>

function perfrandomize_loop :: "'a ASTContext \<Rightarrow> 'a locals \<Rightarrow> 'a locals" where
  "perfrandomize_loop ctx s =
     (if fields_vec s = [] then s else perfrandomize_loop ctx (loop_body ctx s))"
  by pat_completeness auto
termination
proof (relation "measures [\<lambda>(ctx, s). length (fields_vec s),
                           \<lambda>(ctx, s). length (fields_vec s) - skipped s]")
  show "wf (measures [\<lambda>(ctx :: 'a ASTContext, s). length (fields_vec s),
                      \<lambda>(ctx, s). length (fields_vec s) - skipped s])"
    by simp
next
  fix ctx :: "'a ASTContext" and s :: "'a locals"
  assume ne: "fields_vec s \<noteq> []"
  have "length (fields_vec (loop_body ctx s)) < length (fields_vec s)
       \<or> (length (fields_vec (loop_body ctx s)) = length (fields_vec s)
          \<and> length (fields_vec s) - skipped (loop_body ctx s)
              < length (fields_vec s) - skipped s)"
  proof (cases "skipped s \<ge> length (fields_vec s)")
    case True
    then show ?thesis
      using ne
      by (simp add: loop_body_def Let_def canFit_def Bucket_canFit_def Bucket_empty_def
          make_Bucket_def split: option.splits)
  next
    case False
    then show ?thesis
      using ne
      by (auto simp: loop_body_def Let_def split: option.splits)
  qed
  then show "((ctx, loop_body ctx s), (ctx, s))
        \<in> measures [\<lambda>(ctx, s). length (fields_vec s),
                     \<lambda>(ctx, s). length (fields_vec s) - skipped s]"
    by auto
qed

declare perfrandomize_loop.simps [simp del]

text \<open>
  After the loop: tie off the open bucket and the open run. The result is the vector
  \<open>buckets\<close> as it stands before the shuffle.
\<close>

definition tie_off :: "'a locals \<Rightarrow> 'a Bucket option list" where
  "tie_off s =
     (let bs1 = (case currentBucket s of
                   None \<Rightarrow> buckets s
                 | Some b \<Rightarrow> buckets s @ [Some b]);
          bs2 = (case currentBitfieldRun s of
                   None \<Rightarrow> bs1
                 | Some r \<Rightarrow> bs1 @ [Some r])
      in bs2)"

definition partition_fields :: "'a ASTContext \<Rightarrow> 'a list \<Rightarrow> 'a Bucket option list" where
  "partition_fields ctx fs = tie_off (perfrandomize_loop ctx (initial_locals fs))"

subsection \<open>Shuffling and flattening\<close>

text \<open>
  The final loop calls \<^verbatim>\<open>bucket->randomize()\<close> on every entry of the shuffled vector;
  on a null entry that is a null-pointer dereference, which the model reports as an error.
\<close>

datatype error = NullBucket

fun final_order :: "'g stdlib \<Rightarrow> globals \<Rightarrow> 'a Bucket option list \<Rightarrow> error + 'a list" where
  "final_order lib g [] = Inr []"
| "final_order lib g (None # bs) = Inl NullBucket"
| "final_order lib g (Some b # bs) =
     (case final_order lib g bs of
        Inl e \<Rightarrow> Inl e
      | Inr rest \<Rightarrow> Inr (randomize lib g b @ rest))"

definition perfrandomize ::
  "'g stdlib \<Rightarrow> globals \<Rightarrow> 'a ASTContext \<Rightarrow> 'a list \<Rightarrow> error + 'a list" where
  "perfrandomize lib g ctx fs =
     (let bs = partition_fields ctx fs;
          rng = default_random_engine lib (RandstructSeed g);
          shuffled = std_shuffle lib rng bs
      in final_order lib g shuffled)"

definition rearrange ::
  "'g stdlib \<Rightarrow> globals \<Rightarrow> 'a ASTContext \<Rightarrow> 'a list \<Rightarrow> error + 'a list" where
  "rearrange lib g ctx fs = perfrandomize lib g ctx fs"

subsection \<open>What a call may return\<close>

text \<open>
  A function of HOL returns the same value whenever it is applied to the same arguments. To
  say that two calls of the program agree, the calls are described by what they may return,
  over a library that is free to answer differently each time it is asked:
  \<open>seeded_engine seed rng\<close> holds when the construction
  \<^verbatim>\<open>std::seed_seq Seq(seed.begin(), seed.end()); std::default_random_engine{Seq}\<close> may
  leave the engine in state \<open>rng\<close>, and \<open>shuffled_order rng n order\<close> when
  \<^verbatim>\<open>std::shuffle\<close>, driven by an engine in state \<open>rng\<close>, may leave a range of
  \<open>n\<close> elements in the order \<open>order\<close>.
\<close>

record 'g stdlib_rel =
  seeded_engine :: "string \<Rightarrow> 'g \<Rightarrow> bool"
  shuffled_order :: "'g \<Rightarrow> nat \<Rightarrow> nat list \<Rightarrow> bool"

text \<open>
  A library is reproducible when a non-empty seed determines the engine and the engine
  determines the order of a shuffle. Nothing is asked of the engine built from the empty
  seed.
\<close>

definition reproducible :: "'g stdlib_rel \<Rightarrow> bool" where
  "reproducible lib =
     ((\<forall>seed rng1 rng2. seed \<noteq> [] \<longrightarrow> seeded_engine lib seed rng1 \<longrightarrow> seeded_engine lib seed rng2
          \<longrightarrow> rng1 = rng2)
      \<and> (\<forall>rng n order1 order2. shuffled_order lib rng n order1 \<longrightarrow> shuffled_order lib rng n order2
          \<longrightarrow> order1 = order2))"

text \<open>A library given by functions answers in one way only.\<close>

definition relations_of :: "'g stdlib \<Rightarrow> 'g stdlib_rel" where
  "relations_of lib =
     \<lparr>seeded_engine = (\<lambda>seed rng. rng = default_random_engine lib seed),
      shuffled_order = (\<lambda>rng n order. order = shuffle_order lib rng n)\<rparr>"

text \<open>
  \<^verbatim>\<open>std::shuffle\<close> on a range, \<^verbatim>\<open>randomize()\<close> by the class of the bucket, the final
  loop of \<^verbatim>\<open>perfrandomize\<close>, and \<^verbatim>\<open>perfrandomize\<close> itself after the partitioning,
  which asks nothing of the library. Each rule follows the statements of the source:
  every shuffle is driven by an engine freshly built from \<open>RandstructSeed\<close>.
\<close>

inductive std_shuffle_may :: "'g stdlib_rel \<Rightarrow> 'g \<Rightarrow> 'b list \<Rightarrow> 'b list \<Rightarrow> bool"
  for lib :: "'g stdlib_rel" and rng :: 'g and xs :: "'b list" where
  "shuffled_order lib rng (length xs) order \<Longrightarrow> std_shuffle_may lib rng xs (map (\<lambda>i. xs ! i) order)"

inductive randomize_may :: "'g stdlib_rel \<Rightarrow> globals \<Rightarrow> 'a Bucket \<Rightarrow> 'a list \<Rightarrow> bool"
  for lib :: "'g stdlib_rel" and g :: globals and b :: "'a Bucket" where
  BitfieldRun_randomize_may:
    "bitfieldRun b \<Longrightarrow> randomize_may lib g b (bucket_fields b)"
| Bucket_randomize_may:
    "\<not> bitfieldRun b \<Longrightarrow> seeded_engine lib (RandstructSeed g) rng
     \<Longrightarrow> std_shuffle_may lib rng (bucket_fields b) out
     \<Longrightarrow> randomize_may lib g b out"

inductive final_order_may ::
  "'g stdlib_rel \<Rightarrow> globals \<Rightarrow> 'a Bucket option list \<Rightarrow> error + 'a list \<Rightarrow> bool"
  for lib :: "'g stdlib_rel" and g :: globals where
  no_bucket: "final_order_may lib g [] (Inr [])"
| null_bucket: "final_order_may lib g (None # bs) (Inl NullBucket)"
| next_ok: "randomize_may lib g b xs \<Longrightarrow> final_order_may lib g bs (Inr rest)
     \<Longrightarrow> final_order_may lib g (Some b # bs) (Inr (xs @ rest))"
| next_null: "randomize_may lib g b xs \<Longrightarrow> final_order_may lib g bs (Inl e)
     \<Longrightarrow> final_order_may lib g (Some b # bs) (Inl e)"

inductive perfrandomize_may ::
  "'g stdlib_rel \<Rightarrow> globals \<Rightarrow> 'a ASTContext \<Rightarrow> 'a list \<Rightarrow> error + 'a list \<Rightarrow> bool"
  for lib :: "'g stdlib_rel" and g :: globals and ctx :: "'a ASTContext" and fs :: "'a list" where
  "seeded_engine lib (RandstructSeed g) rng
   \<Longrightarrow> std_shuffle_may lib rng (partition_fields ctx fs) shuffled
   \<Longrightarrow> final_order_may lib g shuffled out
   \<Longrightarrow> perfrandomize_may lib g ctx fs out"

definition rearrange_may ::
  "'g stdlib_rel \<Rightarrow> globals \<Rightarrow> 'a ASTContext \<Rightarrow> 'a list \<Rightarrow> error + 'a list \<Rightarrow> bool" where
  "rearrange_may lib g ctx fs out = perfrandomize_may lib g ctx fs out"

text \<open>
  The state after at most \<open>n\<close> iterations of the loop: the way to speak of the states
  the loop passes through, and of the number of iterations it takes.
\<close>

fun iterations :: "'a ASTContext \<Rightarrow> nat \<Rightarrow> 'a locals \<Rightarrow> 'a locals" where
  "iterations ctx 0 s = s"
| "iterations ctx (Suc n) s =
     (if fields_vec s = [] then s else iterations ctx n (loop_body ctx s))"

subsection \<open>Notions used in the proofs\<close>

text \<open>
  Whenever members have been skipped, the bucket they did not fit into is still open;
  and no null pointer has been pushed onto \<open>buckets\<close>.
\<close>

definition open_when_skipped :: "'a locals \<Rightarrow> bool" where
  "open_when_skipped s =
     ((0 < skipped s \<longrightarrow> currentBucket s \<noteq> None) \<and> None \<notin> set (buckets s))"

text \<open>
  A bound on the iterations still to come, counted twice: a queue of length \<open>L\<close> loses
  a member after at most \<open>L - skipped\<close> skips.
\<close>

definition potential :: "'a locals \<Rightarrow> nat" where
  "potential s = length (fields_vec s) * (length (fields_vec s) + 1)
                 + 2 * (length (fields_vec s) - skipped s)"

text \<open>
  The members a bucket pointer holds, the members placed so far, and what
  \<^verbatim>\<open>randomize()\<close> returns for a bucket pointer.
\<close>

definition bucket_members :: "'a Bucket option \<Rightarrow> 'a list" where
  "bucket_members p = (case p of None \<Rightarrow> [] | Some b \<Rightarrow> bucket_fields b)"

definition placed :: "'a locals \<Rightarrow> 'a list" where
  "placed s = concat (map bucket_members (buckets s))
              @ bucket_members (currentBucket s) @ bucket_members (currentBitfieldRun s)"

definition finalized :: "'g stdlib \<Rightarrow> globals \<Rightarrow> 'a Bucket option \<Rightarrow> 'a list" where
  "finalized lib g p = (case p of None \<Rightarrow> [] | Some b \<Rightarrow> randomize lib g b)"

text \<open>
  Where a maximal run \<open>r\<close> of bit-fields stands during the loop: still wholly in the
  queue, partly collected in the open run, or sealed as a bucket of its own.
\<close>

definition run_pending :: "'a ASTContext \<Rightarrow> 'a list \<Rightarrow> 'a locals \<Rightarrow> bool" where
  "run_pending ctx r s =
     (\<exists>a b. fields_vec s = a @ r @ b
        \<and> (a = [] \<or> \<not> isBitField ctx (last a))
        \<and> (b = [] \<or> \<not> isBitField ctx (hd b))
        \<and> (a = [] \<longrightarrow> currentBitfieldRun s = None))"

definition run_open :: "'a ASTContext \<Rightarrow> 'a list \<Rightarrow> 'a locals \<Rightarrow> bool" where
  "run_open ctx r s =
     (\<exists>r1 r2 b run. r = r1 @ r2 \<and> r1 \<noteq> [] \<and> fields_vec s = r2 @ b
        \<and> (b = [] \<or> \<not> isBitField ctx (hd b))
        \<and> currentBitfieldRun s = Some run \<and> bitfieldRun run \<and> bucket_fields run = r1)"

definition run_sealed :: "'a list \<Rightarrow> 'a locals \<Rightarrow> bool" where
  "run_sealed r s = (\<exists>run. Some run \<in> set (buckets s) \<and> bitfieldRun run \<and> bucket_fields run = r)"

definition run_inv :: "'a ASTContext \<Rightarrow> 'a list \<Rightarrow> 'a locals \<Rightarrow> bool" where
  "run_inv ctx r s = (run_pending ctx r s \<or> run_open ctx r s \<or> run_sealed r s)"

text \<open>
  The bit-field run that holds the members \<open>fs\<close>, built the way \<^verbatim>\<open>perfrandomize\<close>
  builds it: \<^verbatim>\<open>add(f, 1)\<close> for each member in turn.
\<close>

definition run_of :: "'a list \<Rightarrow> 'a Bucket" where
  "run_of fs = foldl (\<lambda>b f. Bucket_add b f 1) make_BitfieldRun fs"

text \<open>
  Every member of a bucket is of the bucket's kind: bit-fields in runs, other members in
  generic buckets; and each of the two open pointers holds a bucket of its own kind.
\<close>

definition kinds_kept :: "'a ASTContext \<Rightarrow> 'a Bucket option \<Rightarrow> bool" where
  "kinds_kept ctx p =
     (case p of
        None \<Rightarrow> True
      | Some b \<Rightarrow> list_all (\<lambda>f. isBitField ctx f = bitfieldRun b) (bucket_fields b))"

definition kinds_inv :: "'a ASTContext \<Rightarrow> 'a locals \<Rightarrow> bool" where
  "kinds_inv ctx s =
     (list_all (kinds_kept ctx) (buckets s)
      \<and> kinds_kept ctx (currentBucket s) \<and> kinds_kept ctx (currentBitfieldRun s)
      \<and> (case currentBucket s of None \<Rightarrow> True | Some b \<Rightarrow> \<not> bitfieldRun b)
      \<and> (case currentBitfieldRun s of None \<Rightarrow> True | Some b \<Rightarrow> bitfieldRun b))"

text \<open>
  The capacity law for a generic bucket: the widths of its members add up to at most a
  cache line, or it holds a single member that is wider than a cache line. A member has an
  ordinary width when it is a bit-field, or its width is positive and so far from
  \<open>2 ^ 64\<close> that adding it to less than a cache line cannot wrap.
\<close>

definition accumulated_width :: "'a ASTContext \<Rightarrow> 'a Bucket \<Rightarrow> nat" where
  "accumulated_width ctx b = sum_list (map (\<lambda>f. unat (getTypeWidth ctx f)) (bucket_fields b))"

definition capacity_law :: "'a ASTContext \<Rightarrow> 'a Bucket \<Rightarrow> bool" where
  "capacity_law ctx b =
     (accumulated_width ctx b \<le> 64
      \<or> (case bucket_fields b of
            [f] \<Rightarrow> 64 < unat (getTypeWidth ctx f)
          | _ \<Rightarrow> False))"

definition ordinary_width :: "'a ASTContext \<Rightarrow> 'a \<Rightarrow> bool" where
  "ordinary_width ctx f =
     (isBitField ctx f \<or> (0 < unat (getTypeWidth ctx f) \<and> unat (getTypeWidth ctx f) \<le> 2 ^ 63))"

definition sealed_ok :: "'a ASTContext \<Rightarrow> 'a Bucket option \<Rightarrow> bool" where
  "sealed_ok ctx p =
     (case p of None \<Rightarrow> True | Some b \<Rightarrow> bitfieldRun b \<or> capacity_law ctx b)"

definition open_ok :: "'a ASTContext \<Rightarrow> 'a Bucket option \<Rightarrow> bool" where
  "open_ok ctx p =
     (case p of
        None \<Rightarrow> True
      | Some b \<Rightarrow> \<not> bitfieldRun b
                 \<and> unat (bucket_size b) = accumulated_width ctx b
                 \<and> accumulated_width ctx b < 64
                 \<and> list_all (\<lambda>f. 0 < unat (getTypeWidth ctx f)) (bucket_fields b))"

definition capacity_inv :: "'a ASTContext \<Rightarrow> 'a locals \<Rightarrow> bool" where
  "capacity_inv ctx s =
     (list_all (ordinary_width ctx) (fields_vec s)
      \<and> list_all (sealed_ok ctx) (buckets s)
      \<and> open_ok ctx (currentBucket s)
      \<and> (case currentBitfieldRun s of None \<Rightarrow> True | Some r \<Rightarrow> bitfieldRun r))"

subsection \<open>Concrete instances for evaluation\<close>

text \<open>
  A member is a name, a bit-field flag and a width. The example library seeds its engine
  with the length of the seed string and shuffles by rotating the range.
\<close>

type_synonym member = "string \<times> bool \<times> size_t"

definition example_ctx :: "member ASTContext" where
  "example_ctx = \<lparr>isBitField = (\<lambda>m. fst (snd m)), getTypeWidth = (\<lambda>m. snd (snd m))\<rparr>"

definition example_lib :: "nat stdlib" where
  "example_lib =
     \<lparr>default_random_engine = (\<lambda>s. Suc (length s)),
      shuffle_order = (\<lambda>rng n. rotate rng [0..<n])\<rparr>"

definition example_globals :: globals where
  "example_globals = \<lparr>RandstructSeed = ''seed'', RandstructAutoSelect = False\<rparr>"

text \<open>Sixty-four bit-fields in a row.\<close>

definition run64 :: "member list" where
  "run64 = replicate 64 (''flag'', True, 1)"

text \<open>A member of width 0 (an empty struct, a zero-length array) before a wide one.\<close>

definition zero_then_wide :: "member list" where
  "zero_then_wide = [(''lock'', False, 0), (''name'', False, 128)]"

text \<open>
  A library whose engine starts in any state at all when the seed is empty, and otherwise
  works as the example library does.
\<close>

definition fallback_lib :: "nat stdlib_rel" where
  "fallback_lib =
     \<lparr>seeded_engine = (\<lambda>seed rng. seed = [] \<or> rng = Suc (length seed)),
      shuffled_order = (\<lambda>rng n order. order = rotate rng [0..<n])\<rparr>"

section \<open>Properties\<close>

subsection \<open>The example library conforms\<close>

lemma mset_rotate1: "mset (rotate1 xs) = mset xs"
  by (cases xs) simp_all

lemma mset_rotate: "mset (rotate n xs) = mset xs"
  by (induction n) (simp_all add: mset_rotate1)

lemma conforming_example_lib: "conforming example_lib"
  unfolding conforming_def example_lib_def
  by (simp only: stdlib.simps mset_rotate) simp

subsection \<open>The loop and its iterations\<close>

lemma loop_eq_iterations:
  "fields_vec (iterations ctx n s) = [] \<Longrightarrow> perfrandomize_loop ctx s = iterations ctx n s"
proof (induction n arbitrary: s)
  case 0
  then show ?case by (simp add: perfrandomize_loop.simps)
next
  case (Suc n)
  then show ?case
    by (cases "fields_vec s = []") (simp_all add: perfrandomize_loop.simps [of ctx s])
qed

lemma iterations_invariant:
  assumes "P s" and "\<And>t. P t \<Longrightarrow> fields_vec t \<noteq> [] \<Longrightarrow> P (loop_body ctx t)"
  shows "P (iterations ctx n s)"
  using assms(1)
  by (induction n arbitrary: s) (simp_all add: assms(2))

lemma potential_step:
  assumes "fields_vec s \<noteq> []"
  shows "potential (loop_body ctx s) + 2 \<le> potential s"
proof -
  from assms obtain f rest where q: "fields_vec s = f # rest"
    by (cases "fields_vec s") auto
  show ?thesis
  proof (cases "skipped s \<ge> length (fields_vec s)")
    case True
    then show ?thesis
      using q
      by (simp add: potential_def loop_body_def Let_def canFit_def Bucket_canFit_def
          Bucket_empty_def make_Bucket_def split: option.splits)
  next
    case False
    then show ?thesis
      using q
      by (auto simp: potential_def loop_body_def Let_def split: option.splits)
  qed
qed

lemma iterations_enough:
  "potential s \<le> 2 * n \<Longrightarrow> fields_vec (iterations ctx n s) = []"
proof (induction n arbitrary: s)
  case 0
  then show ?case by (simp add: potential_def)
next
  case (Suc n)
  show ?case
  proof (cases "fields_vec s = []")
    case True
    then show ?thesis by simp
  next
    case False
    from potential_step [OF False, of ctx] Suc.prems
    have "potential (loop_body ctx s) \<le> 2 * n" by simp
    from Suc.IH [OF this] False show ?thesis by simp
  qed
qed

lemma loop_invariant:
  assumes "P s" and "\<And>t. P t \<Longrightarrow> fields_vec t \<noteq> [] \<Longrightarrow> P (loop_body ctx t)"
  shows "P (perfrandomize_loop ctx s)"
proof -
  have "fields_vec (iterations ctx (potential s) s) = []"
    by (rule iterations_enough) simp
  then have "perfrandomize_loop ctx s = iterations ctx (potential s) s"
    by (rule loop_eq_iterations)
  then show ?thesis
    using iterations_invariant [of P s ctx "potential s"] assms by simp
qed

lemma loop_empties: "fields_vec (perfrandomize_loop ctx s) = []"
proof -
  have "fields_vec (iterations ctx (potential s) s) = []"
    by (rule iterations_enough) simp
  with loop_eq_iterations [of ctx "potential s" s] show ?thesis by simp
qed

lemma potential_initial:
  "potential (initial_locals fs) = 2 * (length fs * (length fs + 3) div 2)"
proof -
  have "even (length fs * (length fs + 3))" by simp
  then show ?thesis
    by (simp add: potential_def initial_locals_def algebra_simps)
qed

text \<open>
  C5. The work loop terminates on every input and for every width assignment: a queue of
  \<open>n\<close> members is empty after at most \<open>n (n + 3) / 2\<close> iterations, the loop returns
  the state reached then, and its queue is empty.
\<close>

theorem partitioner_terminates:
  "fields_vec (iterations ctx (length fs * (length fs + 3) div 2) (initial_locals fs)) = []
   \<and> perfrandomize_loop ctx (initial_locals fs)
       = iterations ctx (length fs * (length fs + 3) div 2) (initial_locals fs)
   \<and> fields_vec (perfrandomize_loop ctx (initial_locals fs)) = []"
proof -
  let ?n = "length fs * (length fs + 3) div 2"
  have e: "fields_vec (iterations ctx ?n (initial_locals fs)) = []"
    by (rule iterations_enough) (simp add: potential_initial)
  from loop_eq_iterations [OF e] e show ?thesis by simp
qed


subsection \<open>Shuffling and flattening\<close>

lemma std_shuffle_Nil: "conforming lib \<Longrightarrow> std_shuffle lib rng [] = []"
proof -
  assume "conforming lib"
  then have "mset (shuffle_order lib rng 0) = {#}"
    by (simp add: conforming_def)
  then show ?thesis
    by (simp add: std_shuffle_def)
qed

lemma mset_std_shuffle:
  assumes "conforming lib"
  shows "mset (std_shuffle lib rng xs) = mset xs"
proof -
  have "mset (std_shuffle lib rng xs)
        = image_mset (\<lambda>i. xs ! i) (mset (shuffle_order lib rng (length xs)))"
    by (simp add: std_shuffle_def)
  also have "\<dots> = image_mset (\<lambda>i. xs ! i) (mset [0..<length xs])"
    using assms by (simp only: conforming_def)
  also have "\<dots> = mset (map (\<lambda>i. xs ! i) [0..<length xs])"
    by simp
  also have "\<dots> = mset xs"
    by (simp only: map_nth)
  finally show ?thesis .
qed

lemma mset_concat_map:
  "mset (concat (map f xs)) = (\<Sum>x\<in>#mset xs. mset (f x))"
  by (induction xs) simp_all

lemma final_order_total:
  "None \<notin> set bs \<Longrightarrow> final_order lib g bs = Inr (concat (map (finalized lib g) bs))"
proof (induction bs)
  case Nil
  then show ?case by simp
next
  case (Cons p bs)
  then show ?case by (cases p) (simp_all add: finalized_def)
qed

lemma mset_finalized:
  "conforming lib \<Longrightarrow> mset (finalized lib g p) = mset (bucket_members p)"
  by (simp add: finalized_def bucket_members_def randomize_def BitfieldRun_randomize_def
      Bucket_randomize_def mset_std_shuffle split: option.splits)

subsection \<open>No null bucket is ever sealed\<close>

lemma open_when_skipped_step:
  "open_when_skipped s \<Longrightarrow> fields_vec s \<noteq> [] \<Longrightarrow> open_when_skipped (loop_body ctx s)"
  unfolding open_when_skipped_def loop_body_def Let_def
  by (auto split: option.splits)

lemma no_null_loop:
  "open_when_skipped s \<Longrightarrow> open_when_skipped (perfrandomize_loop ctx s)"
  by (rule loop_invariant [where P = open_when_skipped]) (simp_all add: open_when_skipped_step)

lemma no_null_partition: "None \<notin> set (partition_fields ctx fs)"
proof -
  have "open_when_skipped (initial_locals fs)"
    by (simp add: open_when_skipped_def initial_locals_def)
  from no_null_loop [OF this, of ctx] show ?thesis
    by (auto simp: partition_fields_def tie_off_def open_when_skipped_def Let_def
        split: option.splits)
qed

lemma perfrandomize_result:
  assumes "conforming lib"
  shows "perfrandomize lib g ctx fs
         = Inr (concat (map (finalized lib g)
              (std_shuffle lib (default_random_engine lib (RandstructSeed g))
                 (partition_fields ctx fs))))"
proof -
  let ?sh = "std_shuffle lib (default_random_engine lib (RandstructSeed g))
                 (partition_fields ctx fs)"
  have "set ?sh = set (partition_fields ctx fs)"
    using mset_std_shuffle [OF assms] by (metis set_mset_mset)
  then have "None \<notin> set ?sh"
    by (simp add: no_null_partition)
  from final_order_total [OF this] show ?thesis
    by (simp add: perfrandomize_def Let_def)
qed

lemma skipped_example:
  "skipped (iterations example_ctx 2
     (initial_locals [(''a'', False, 60), (''b'', False, 10)])) = 1
   \<and> fields_vec (iterations example_ctx 2
        (initial_locals [(''a'', False, 60), (''b'', False, 10)])) = [(''b'', False, 10)]"
  by code_simp

text \<open>
  C9. In every state the loop passes through, a positive \<open>skipped\<close> means that a
  generic bucket is open (\<open>currentBucket\<close> is not null); so the escape at the head of
  the loop, taken when \<open>skipped\<close> has reached the length of the non-empty queue, pushes
  a real bucket. No entry of \<open>buckets\<close> is null, neither during the loop nor after the
  tie-off, and the final loop never calls \<open>randomize\<close> through a null pointer:
  \<open>perfrandomize\<close> returns a sequence.
\<close>

theorem no_null_bucket:
  assumes "conforming lib"
  shows "let s = iterations ctx n (initial_locals fs)
         in (0 < skipped s \<longrightarrow> currentBucket s \<noteq> None)
            \<and> (fields_vec s \<noteq> [] \<and> length (fields_vec s) \<le> skipped s
                 \<longrightarrow> currentBucket s \<noteq> None)
            \<and> None \<notin> set (buckets s)
            \<and> None \<notin> set (partition_fields ctx fs)
            \<and> (\<exists>out. perfrandomize lib g ctx fs = Inr out)"
proof -
  let ?s = "iterations ctx n (initial_locals fs)"
  have "open_when_skipped (initial_locals fs)"
    by (simp add: open_when_skipped_def initial_locals_def)
  then have "open_when_skipped ?s"
    by (rule iterations_invariant) (rule open_when_skipped_step)
  then have a: "0 < skipped ?s \<longrightarrow> currentBucket ?s \<noteq> None" and b: "None \<notin> set (buckets ?s)"
    by (simp_all add: open_when_skipped_def)
  have c: "fields_vec ?s \<noteq> [] \<and> length (fields_vec ?s) \<le> skipped ?s
           \<longrightarrow> currentBucket ?s \<noteq> None"
  proof
    assume "fields_vec ?s \<noteq> [] \<and> length (fields_vec ?s) \<le> skipped ?s"
    then have "0 < skipped ?s" by (cases "fields_vec ?s") auto
    with a show "currentBucket ?s \<noteq> None" by simp
  qed
  from a b c no_null_partition [of ctx fs] perfrandomize_result [OF assms, of g ctx fs]
  show ?thesis by (simp add: Let_def)
qed

theorem no_null_bucket_witness:
  "conforming example_lib
   \<and> skipped (iterations example_ctx 2
        (initial_locals [(''a'', False, 60), (''b'', False, 10)])) = 1
   \<and> fields_vec (iterations example_ctx 2
        (initial_locals [(''a'', False, 60), (''b'', False, 10)])) = [(''b'', False, 10)]
   \<and> currentBucket (iterations example_ctx 2
        (initial_locals [(''a'', False, 60), (''b'', False, 10)])) \<noteq> None
   \<and> None \<notin> set (partition_fields example_ctx [(''a'', False, 60), (''b'', False, 10)])
   \<and> (\<exists>out. perfrandomize example_lib example_globals example_ctx
               [(''a'', False, 60), (''b'', False, 10)] = Inr out)"
  using no_null_bucket [OF conforming_example_lib, of example_ctx 2
      "[(''a'', False, 60), (''b'', False, 10)]" example_globals]
    conforming_example_lib skipped_example
  by (simp add: Let_def)

subsection \<open>Every member is placed exactly once\<close>

lemma members_step:
  assumes "fields_vec s \<noteq> []"
  shows "mset (fields_vec (loop_body ctx s)) + mset (placed (loop_body ctx s))
         = mset (fields_vec s) + mset (placed s)"
proof -
  from assms obtain f rest where q: "fields_vec s = f # rest"
    by (cases "fields_vec s") auto
  show ?thesis
    using q
    by (auto simp: loop_body_def Let_def placed_def bucket_members_def Bucket_add_def
        make_Bucket_def make_BitfieldRun_def split: option.splits)
qed

lemma members_loop:
  "mset (fields_vec (perfrandomize_loop ctx s)) + mset (placed (perfrandomize_loop ctx s))
   = mset (fields_vec s) + mset (placed s)"
  by (rule loop_invariant
      [where P = "\<lambda>t. mset (fields_vec t) + mset (placed t) = mset (fields_vec s) + mset (placed s)"])
    (simp_all add: members_step)

lemma members_tie_off:
  "mset (concat (map bucket_members (tie_off s))) = mset (placed s)"
  by (simp add: tie_off_def placed_def bucket_members_def Let_def split: option.splits)

lemma members_partition:
  "mset (concat (map bucket_members (partition_fields ctx fs))) = mset fs"
  using members_loop [of ctx "initial_locals fs"] loop_empties [of ctx "initial_locals fs"]
  by (simp add: partition_fields_def members_tie_off)
    (simp add: initial_locals_def placed_def bucket_members_def)

text \<open>
  C1. For every input the output of \<open>rearrange\<close> is a permutation of the input: it has
  the same multiset of member references, hence the same count and the same set, with
  nothing duplicated and nothing lost.
\<close>

theorem rearrange_is_permutation:
  assumes "conforming lib"
  shows "\<exists>out. rearrange lib g ctx fs = Inr out
          \<and> mset out = mset fs \<and> length out = length fs \<and> set out = set fs
          \<and> distinct out = distinct fs"
proof -
  let ?bs = "partition_fields ctx fs"
  let ?sh = "std_shuffle lib (default_random_engine lib (RandstructSeed g)) ?bs"
  let ?out = "concat (map (finalized lib g) ?sh)"
  have r: "rearrange lib g ctx fs = Inr ?out"
    by (simp add: rearrange_def perfrandomize_result [OF assms])
  have "mset ?out = (\<Sum>p\<in>#mset ?sh. mset (finalized lib g p))"
    by (rule mset_concat_map)
  also have "\<dots> = (\<Sum>p\<in>#mset ?bs. mset (bucket_members p))"
    by (simp add: mset_std_shuffle [OF assms] mset_finalized [OF assms])
  also have "\<dots> = mset (concat (map bucket_members ?bs))"
    by (rule mset_concat_map [symmetric])
  also have "\<dots> = mset fs"
    by (rule members_partition)
  finally have m: "mset ?out = mset fs" .
  from m have "length ?out = length fs" by (rule mset_eq_length)
  moreover from m have "set ?out = set fs" by (rule mset_eq_setD)
  moreover from m have "distinct ?out = distinct fs" by (rule mset_eq_imp_distinct_iff)
  ultimately show ?thesis using r m by blast
qed

theorem rearrange_is_permutation_witness:
  "conforming example_lib
   \<and> (\<exists>out. rearrange example_lib example_globals example_ctx
               [(''x'', True, 1), (''a'', False, 60), (''b'', False, 10),
                (''y'', True, 1), (''z'', True, 1), (''c'', False, 4)] = Inr out
          \<and> mset out = mset [(''x'', True, 1), (''a'', False, 60), (''b'', False, 10),
                (''y'', True, 1), (''z'', True, 1), (''c'', False, 4)]
          \<and> length out = 6)"
  using rearrange_is_permutation [OF conforming_example_lib, of example_globals example_ctx
      "[(''x'', True, 1), (''a'', False, 60), (''b'', False, 10),
        (''y'', True, 1), (''z'', True, 1), (''c'', False, 4)]"]
    conforming_example_lib
  by auto

lemma partition_fields_Nil: "partition_fields ctx [] = []"
  by (simp add: partition_fields_def perfrandomize_loop.simps initial_locals_def tie_off_def)

text \<open>
  C8. On the empty input the loop is not entered and nothing is tied off, so the
  Partitioner produces no groups, and \<open>rearrange\<close> returns the empty sequence.
\<close>

theorem rearrange_empty_input:
  assumes "conforming lib"
  shows "rearrange lib g ctx [] = Inr [] \<and> partition_fields ctx [] = []"
  using assms
  by (simp add: rearrange_def perfrandomize_def partition_fields_Nil std_shuffle_Nil)

theorem rearrange_empty_input_witness:
  "conforming example_lib
   \<and> rearrange example_lib initial_globals example_ctx [] = Inr []
   \<and> partition_fields example_ctx [] = []"
  using rearrange_empty_input [OF conforming_example_lib, of initial_globals example_ctx]
    conforming_example_lib
  by simp

subsection \<open>Bit-field runs\<close>

lemma step_bitfield:
  assumes "fields_vec s = f # rest" and "isBitField ctx f"
  shows "fields_vec (loop_body ctx s) = rest"
    and "\<exists>run. currentBitfieldRun (loop_body ctx s) = Some run
           \<and> bucket_fields run = bucket_members (currentBitfieldRun s) @ [f]
           \<and> bitfieldRun run = (case currentBitfieldRun s of None \<Rightarrow> True | Some r \<Rightarrow> bitfieldRun r)"
    and "set (buckets s) \<subseteq> set (buckets (loop_body ctx s))"
  using assms
  by (auto simp: loop_body_def Let_def bucket_members_def Bucket_add_def make_BitfieldRun_def
      split: option.splits)

lemma step_non_bitfield:
  assumes "fields_vec s = f # rest" and "\<not> isBitField ctx f"
  shows "fields_vec (loop_body ctx s) = rest \<or> fields_vec (loop_body ctx s) = rest @ [f]"
    and "currentBitfieldRun (loop_body ctx s) = None"
    and "set (buckets s) \<subseteq> set (buckets (loop_body ctx s))"
    and "currentBitfieldRun s = Some run \<Longrightarrow> Some run \<in> set (buckets (loop_body ctx s))"
  using assms
  by (auto simp: loop_body_def Let_def split: option.splits)

lemma run_sealed_step:
  assumes "fields_vec s \<noteq> []" and "run_sealed r s"
  shows "run_sealed r (loop_body ctx s)"
proof -
  from assms(1) obtain f rest where q: "fields_vec s = f # rest"
    by (cases "fields_vec s") auto
  have "set (buckets s) \<subseteq> set (buckets (loop_body ctx s))"
    using step_bitfield(3) [OF q] step_non_bitfield(3) [OF q] by (cases "isBitField ctx f") auto
  with assms(2) show ?thesis
    by (auto simp: run_sealed_def)
qed

lemma run_open_step:
  assumes "fields_vec s \<noteq> []" and "run_open ctx r s" and bf: "\<forall>f\<in>set r. isBitField ctx f"
  shows "run_open ctx r (loop_body ctx s) \<or> run_sealed r (loop_body ctx s)"
proof -
  from assms(2) obtain r1 r2 b run where
    r: "r = r1 @ r2" and r1: "r1 \<noteq> []" and q: "fields_vec s = r2 @ b"
    and b: "b = [] \<or> \<not> isBitField ctx (hd b)"
    and cr: "currentBitfieldRun s = Some run" "bitfieldRun run" "bucket_fields run = r1"
    unfolding run_open_def by blast
  show ?thesis
  proof (cases r2)
    case Nil
    with q assms(1) obtain f rest where b': "b = f # rest" by (cases b) auto
    with b have nf: "\<not> isBitField ctx f" by simp
    from q Nil b' have q': "fields_vec s = f # rest" by simp
    from step_non_bitfield(4) [OF q' nf cr(1)] cr r Nil
    have "run_sealed r (loop_body ctx s)"
      by (auto simp: run_sealed_def)
    then show ?thesis ..
  next
    case (Cons y r2')
    with q have q': "fields_vec s = y # (r2' @ b)" by simp
    from Cons r bf have y: "isBitField ctx y" by simp
    from step_bitfield(2) [OF q' y] cr obtain run' where
      "currentBitfieldRun (loop_body ctx s) = Some run'" "bucket_fields run' = r1 @ [y]"
      "bitfieldRun run'"
      by (auto simp: bucket_members_def)
    with step_bitfield(1) [OF q' y] r Cons b
    have "run_open ctx r (loop_body ctx s)"
      unfolding run_open_def
      by (intro exI [of _ "r1 @ [y]"] exI [of _ r2'] exI [of _ b] exI [of _ run']) simp
    then show ?thesis ..
  qed
qed

lemma run_pending_step:
  assumes "fields_vec s \<noteq> []" and "run_pending ctx r s"
    and bf: "\<forall>f\<in>set r. isBitField ctx f" and ne: "r \<noteq> []"
  shows "run_pending ctx r (loop_body ctx s) \<or> run_open ctx r (loop_body ctx s)"
proof -
  from assms(2) obtain a b where
    q: "fields_vec s = a @ r @ b"
    and a: "a = [] \<or> \<not> isBitField ctx (last a)"
    and b: "b = [] \<or> \<not> isBitField ctx (hd b)"
    and cr: "a = [] \<longrightarrow> currentBitfieldRun s = None"
    unfolding run_pending_def by blast
  show ?thesis
  proof (cases a)
    case Nil
    from ne obtain y r' where r: "r = y # r'" by (cases r) auto
    with q Nil have q': "fields_vec s = y # (r' @ b)" by simp
    from r bf have y: "isBitField ctx y" by simp
    from cr Nil have "currentBitfieldRun s = None" by simp
    with step_bitfield(2) [OF q' y] obtain run' where
      "currentBitfieldRun (loop_body ctx s) = Some run'" "bucket_fields run' = [y]"
      "bitfieldRun run'"
      by (auto simp: bucket_members_def)
    with step_bitfield(1) [OF q' y] r b
    have "run_open ctx r (loop_body ctx s)"
      unfolding run_open_def
      by (intro exI [of _ "[y]"] exI [of _ r'] exI [of _ b] exI [of _ run']) simp
    then show ?thesis ..
  next
    case (Cons x a')
    with q have q': "fields_vec s = x # (a' @ r @ b)" by simp
    show ?thesis
    proof (cases "isBitField ctx x")
      case True
      with a Cons have a': "a' \<noteq> []" by auto
      with a Cons have "\<not> isBitField ctx (last a')" by simp
      with step_bitfield(1) [OF q' True] a' b
      have "run_pending ctx r (loop_body ctx s)"
        unfolding run_pending_def
        by (intro exI [of _ a'] exI [of _ b]) simp
      then show ?thesis ..
    next
      case False
      have la: "a' = [] \<or> \<not> isBitField ctx (last a')"
        using a Cons by (cases "a' = []") simp_all
      from step_non_bitfield(1) [OF q' False]
      show ?thesis
      proof
        assume "fields_vec (loop_body ctx s) = a' @ r @ b"
        with la b step_non_bitfield(2) [OF q' False]
        have "run_pending ctx r (loop_body ctx s)"
          unfolding run_pending_def
          by (intro exI [of _ a'] exI [of _ b]) simp
        then show ?thesis ..
      next
        assume "fields_vec (loop_body ctx s) = (a' @ r @ b) @ [x]"
        moreover have "b @ [x] = [] \<or> \<not> isBitField ctx (hd (b @ [x]))"
          using b False by (cases b) simp_all
        ultimately have "run_pending ctx r (loop_body ctx s)"
          using la step_non_bitfield(2) [OF q' False]
          unfolding run_pending_def
          by (intro exI [of _ a'] exI [of _ "b @ [x]"]) simp
        then show ?thesis ..
      qed
    qed
  qed
qed

lemma run_inv_step:
  assumes "fields_vec s \<noteq> []" and "run_inv ctx r s"
    and "\<forall>f\<in>set r. isBitField ctx f" and "r \<noteq> []"
  shows "run_inv ctx r (loop_body ctx s)"
  using assms run_pending_step [of s ctx r] run_open_step [of s ctx r] run_sealed_step [of s r ctx]
  unfolding run_inv_def by blast

lemma run_in_partition:
  assumes "fs = pre @ r @ post" and "r \<noteq> []" and bf: "\<forall>f\<in>set r. isBitField ctx f"
    and "pre = [] \<or> \<not> isBitField ctx (last pre)"
    and "post = [] \<or> \<not> isBitField ctx (hd post)"
  shows "\<exists>run. Some run \<in> set (partition_fields ctx fs) \<and> bitfieldRun run \<and> bucket_fields run = r"
proof -
  let ?s = "perfrandomize_loop ctx (initial_locals fs)"
  have "run_pending ctx r (initial_locals fs)"
    unfolding run_pending_def using assms
    by (intro exI [of _ pre] exI [of _ post]) (simp add: initial_locals_def)
  then have "run_inv ctx r (initial_locals fs)"
    by (simp add: run_inv_def)
  then have inv: "run_inv ctx r ?s"
    by (rule loop_invariant) (simp add: run_inv_step assms)
  have e: "fields_vec ?s = []" by (rule loop_empties)
  from inv show ?thesis
    unfolding run_inv_def
  proof (elim disjE)
    assume "run_pending ctx r ?s"
    with e assms(2) show ?thesis by (auto simp: run_pending_def)
  next
    assume "run_open ctx r ?s"
    with e show ?thesis
      by (auto simp: run_open_def partition_fields_def tie_off_def Let_def split: option.splits)
  next
    assume "run_sealed r ?s"
    then show ?thesis
      by (auto simp: run_sealed_def partition_fields_def tie_off_def Let_def split: option.splits)
  qed
qed

text \<open>
  C2. Every maximal run of consecutive bit-field members of the input is collected in one
  bit-field-run bucket, whose \<open>randomize\<close> returns it unchanged; so the run appears
  in the output contiguous and in its original order.
\<close>

theorem bitfield_run_stays_adjacent:
  assumes "conforming lib"
    and "fs = pre @ run @ post" and "run \<noteq> []" and "\<forall>f\<in>set run. isBitField ctx f"
    and "pre = [] \<or> \<not> isBitField ctx (last pre)"
    and "post = [] \<or> \<not> isBitField ctx (hd post)"
  shows "(\<exists>b. Some b \<in> set (partition_fields ctx fs) \<and> isBitfieldRun b
              \<and> bucket_fields b = run \<and> randomize lib g b = run)
         \<and> (\<exists>before after. rearrange lib g ctx fs = Inr (before @ run @ after))"
proof -
  let ?bs = "partition_fields ctx fs"
  let ?sh = "std_shuffle lib (default_random_engine lib (RandstructSeed g)) ?bs"
  from run_in_partition [OF assms(2-6)] obtain b where
    b: "Some b \<in> set ?bs" "bitfieldRun b" "bucket_fields b = run"
    by blast
  then have id: "randomize lib g b = run"
    by (simp add: randomize_def BitfieldRun_randomize_def)
  have "set ?sh = set ?bs"
    using mset_std_shuffle [OF assms(1)] by (metis set_mset_mset)
  with b(1) have "Some b \<in> set ?sh" by simp
  then obtain xs ys where sh: "?sh = xs @ Some b # ys"
    by (auto dest: split_list)
  have "rearrange lib g ctx fs = Inr (concat (map (finalized lib g) ?sh))"
    by (simp add: rearrange_def perfrandomize_result [OF assms(1)])
  also have "concat (map (finalized lib g) ?sh)
             = concat (map (finalized lib g) xs) @ run @ concat (map (finalized lib g) ys)"
    by (simp add: sh finalized_def id)
  finally have "\<exists>before after. rearrange lib g ctx fs = Inr (before @ run @ after)"
    by blast
  moreover from b id have "\<exists>b. Some b \<in> set ?bs \<and> isBitfieldRun b
              \<and> bucket_fields b = run \<and> randomize lib g b = run"
    by (auto simp: isBitfieldRun_def BitfieldRun_isBitfieldRun_def)
  ultimately show ?thesis by blast
qed

theorem bitfield_run_stays_adjacent_witness:
  "conforming example_lib
   \<and> isBitField example_ctx (''y'', True, 1) \<and> isBitField example_ctx (''z'', True, 1)
   \<and> \<not> isBitField example_ctx (last [(''x'', True, 1), (''a'', False, 60), (''b'', False, 10)])
   \<and> \<not> isBitField example_ctx (hd [(''c'', False, 4)])
   \<and> (\<exists>b. Some b \<in> set (partition_fields example_ctx
                 [(''x'', True, 1), (''a'', False, 60), (''b'', False, 10),
                  (''y'', True, 1), (''z'', True, 1), (''c'', False, 4)])
           \<and> isBitfieldRun b
           \<and> bucket_fields b = [(''y'', True, 1), (''z'', True, 1)]
           \<and> randomize example_lib example_globals b = [(''y'', True, 1), (''z'', True, 1)])
   \<and> (\<exists>before after. rearrange example_lib example_globals example_ctx
                 [(''x'', True, 1), (''a'', False, 60), (''b'', False, 10),
                  (''y'', True, 1), (''z'', True, 1), (''c'', False, 4)]
               = Inr (before @ [(''y'', True, 1), (''z'', True, 1)] @ after))"
proof -
  have h: "\<forall>f\<in>set [(''y'', True, 1), (''z'', True, 1)]. isBitField example_ctx f"
    "[(''x'', True, 1), (''a'', False, 60), (''b'', False, 10)] = []
     \<or> \<not> isBitField example_ctx (last [(''x'', True, 1), (''a'', False, 60), (''b'', False, 10)])"
    "[(''c'', False, 4)] = [] \<or> \<not> isBitField example_ctx (hd [(''c'', False, 4)])"
    by (simp_all add: example_ctx_def)
  have e: "[(''x'', True, 1), (''a'', False, 60), (''b'', False, 10),
            (''y'', True, 1), (''z'', True, 1), (''c'', False, 4)]
           = [(''x'', True, 1), (''a'', False, 60), (''b'', False, 10)]
             @ [(''y'', True, 1), (''z'', True, 1)] @ [(''c'', False, 4 :: size_t)]"
    by simp
  from bitfield_run_stays_adjacent [OF conforming_example_lib e _ h, of example_globals]
    conforming_example_lib h
  show ?thesis by simp
qed

subsection \<open>What a bit-field run reports and admits\<close>

lemma foldl_add_run:
  "foldl (\<lambda>b f. Bucket_add b f 1) b0 fs
   = b0\<lparr>bucket_fields := bucket_fields b0 @ fs,
        bucket_size := bucket_size b0 + of_nat (length fs)\<rparr>"
  by (induction fs arbitrary: b0) (simp_all add: Bucket_add_def)

lemma run_of_eq:
  "run_of fs = \<lparr>bitfieldRun = True, bucket_size = of_nat (length fs), bucket_fields = fs\<rparr>"
  by (simp add: run_of_def foldl_add_run make_BitfieldRun_def)

lemma run_of_full: "Bucket_full (run_of fs) = (64 \<le> length fs mod 2 ^ 64)"
proof -
  have "Bucket_full (run_of fs) = ((64 :: size_t) \<le> of_nat (length fs))"
    by (simp add: Bucket_full_def run_of_eq CACHE_LINE_def)
  also have "\<dots> = (unat (64 :: size_t) \<le> unat (of_nat (length fs) :: size_t))"
    by (rule word_le_nat_alt)
  also have "\<dots> = (64 \<le> length fs mod 2 ^ 64)"
    by (simp add: unat_of_nat)
  finally show ?thesis .
qed

lemma loop_done: "fields_vec s = [] \<Longrightarrow> perfrandomize_loop ctx s = s"
  by (simp add: perfrandomize_loop.simps)

lemma loop_all_bitfields:
  assumes "\<forall>f\<in>set (fields_vec s). isBitField ctx f" and "skipped s = 0"
    and "fields_vec s \<noteq> []"
  shows "perfrandomize_loop ctx s
         = s\<lparr>currentBitfieldRun :=
                Some (foldl (\<lambda>b f. Bucket_add b f 1)
                  (case currentBitfieldRun s of None \<Rightarrow> make_BitfieldRun | Some r \<Rightarrow> r)
                  (fields_vec s)),
              fields_vec := []\<rparr>"
  using assms
proof (induction "fields_vec s" arbitrary: s)
  case Nil
  then show ?case by simp
next
  case (Cons f rest)
  let ?t = "loop_body ctx s"
  let ?r = "case currentBitfieldRun s of None \<Rightarrow> make_BitfieldRun | Some r \<Rightarrow> r"
  from Cons.hyps(2) Cons.prems have f: "isBitField ctx f"
    by (metis list.set_intros(1))
  have t: "?t = s\<lparr>currentBitfieldRun := Some (Bucket_add ?r f 1), fields_vec := rest\<rparr>"
    using Cons.hyps(2) [symmetric] Cons.prems(2) f
    by (simp add: loop_body_def Let_def split: option.splits)
  have unfold: "perfrandomize_loop ctx s = perfrandomize_loop ctx ?t"
    using Cons.prems(3) by (simp add: perfrandomize_loop.simps [of ctx s])
  show ?case
  proof (cases "rest = []")
    case True
    with t have "fields_vec ?t = []" by simp
    then have "perfrandomize_loop ctx ?t = ?t"
      by (rule loop_done)
    with unfold t True Cons.hyps(2) [symmetric] show ?thesis
      by simp
  next
    case False
    have "perfrandomize_loop ctx ?t
          = ?t\<lparr>currentBitfieldRun :=
                Some (foldl (\<lambda>b f. Bucket_add b f 1)
                  (case currentBitfieldRun ?t of None \<Rightarrow> make_BitfieldRun | Some r \<Rightarrow> r)
                  (fields_vec ?t)),
              fields_vec := []\<rparr>"
    proof (rule Cons.hyps(1))
      show "rest = fields_vec ?t" using t by simp
      show "\<forall>f\<in>set (fields_vec ?t). isBitField ctx f"
        using t Cons.prems(1) Cons.hyps(2) [symmetric] by simp
      show "skipped ?t = 0" using t Cons.prems(2) by simp
      show "fields_vec ?t \<noteq> []" using t False by simp
    qed
    with unfold t Cons.hyps(2) [symmetric] show ?thesis
      by simp
  qed
qed

lemma partition_all_bitfields:
  assumes "\<forall>f\<in>set fs. isBitField ctx f" and "fs \<noteq> []"
  shows "partition_fields ctx fs = [Some (run_of fs)]"
  using loop_all_bitfields [of "initial_locals fs" ctx] assms
  by (simp add: partition_fields_def initial_locals_def tie_off_def run_of_def)

text \<open>
  C6, as stated, fails: \<open>full()\<close> is not virtual and compares \<open>size\<close>, which a run
  counts up by one per member, with the cache line. A run of sixty-four bit-fields
  reports full.
\<close>

theorem bitfield_run_full_counterexample:
  "partition_fields example_ctx run64 = [Some (run_of run64)]
   \<and> isBitfieldRun (run_of run64) \<and> length (bucket_fields (run_of run64)) = 64
   \<and> Bucket_full (run_of run64)"
proof -
  have "partition_fields example_ctx run64 = [Some (run_of run64)]"
    by (rule partition_all_bitfields) (simp_all add: run64_def example_ctx_def)
  moreover have "length run64 = 64" by (simp add: run64_def)
  ultimately show ?thesis
    by (simp add: run_of_full) (simp add: run_of_eq isBitfieldRun_def BitfieldRun_isBitfieldRun_def)
qed

text \<open>
  C6, amended. \<^verbatim>\<open>perfrandomize\<close> never asks a run whether it is full, so a run is never
  sealed by capacity: an input of bit-fields only, of any length below \<open>2 ^ 64\<close>, ends in
  exactly one group, the run of all its members. What \<open>full()\<close> itself returns on that
  run is whether it holds sixty-four members or more.
\<close>

theorem bitfield_run_never_sealed_by_capacity:
  assumes "fs \<noteq> []" and "\<forall>f\<in>set fs. isBitField ctx f" and "length fs < 2 ^ 64"
  shows "partition_fields ctx fs = [Some (run_of fs)]
         \<and> Bucket_full (run_of fs) = (64 \<le> length fs)"
  using assms by (simp add: run_of_full partition_all_bitfields)

theorem bitfield_run_never_sealed_by_capacity_witness:
  "[(''x'', True, 1), (''y'', True, 1), (''z'', True, 1 :: size_t)] \<noteq> []
   \<and> isBitField example_ctx (''x'', True, 1) \<and> isBitField example_ctx (''y'', True, 1)
   \<and> isBitField example_ctx (''z'', True, 1)
   \<and> partition_fields example_ctx [(''x'', True, 1), (''y'', True, 1), (''z'', True, 1)]
       = [Some (run_of [(''x'', True, 1), (''y'', True, 1), (''z'', True, 1)])]
   \<and> \<not> Bucket_full (run_of [(''x'', True, 1), (''y'', True, 1), (''z'', True, 1 :: size_t)])"
proof -
  have h: "\<forall>f\<in>set [(''x'', True, 1), (''y'', True, 1), (''z'', True, 1)]. isBitField example_ctx f"
    by (simp add: example_ctx_def)
  from bitfield_run_never_sealed_by_capacity [OF _ h] h show ?thesis by simp
qed

lemma kinds_inv_step:
  assumes "fields_vec s \<noteq> []" and "kinds_inv ctx s"
  shows "kinds_inv ctx (loop_body ctx s)"
proof -
  from assms(1) obtain f rest where q: "fields_vec s = f # rest"
    by (cases "fields_vec s") auto
  show ?thesis
    using q assms(2)
    by (auto simp: kinds_inv_def kinds_kept_def loop_body_def Let_def Bucket_add_def
        make_Bucket_def make_BitfieldRun_def split: option.splits)
qed

lemma kinds_partition: "list_all (kinds_kept ctx) (partition_fields ctx fs)"
proof -
  have "kinds_inv ctx (initial_locals fs)"
    by (simp add: kinds_inv_def kinds_kept_def initial_locals_def)
  then have "kinds_inv ctx (perfrandomize_loop ctx (initial_locals fs))"
    by (rule loop_invariant) (simp add: kinds_inv_step)
  then show ?thesis
    by (auto simp: partition_fields_def tie_off_def kinds_inv_def Let_def split: option.splits)
qed

text \<open>
  C7, as stated, fails: a run rejects nothing. Its \<open>canFit\<close> answers true whatever the
  width, and \<open>add\<close> appends whatever member it is given; neither looks at the kind of the
  member. Here a run admits a member that is not a bit-field.
\<close>

theorem bitfield_run_admits_non_bitfield:
  "\<not> isBitField example_ctx (''a'', False, 32)
   \<and> isBitfieldRun (run_of [(''x'', True, 1 :: size_t)])
   \<and> canFit (run_of [(''x'', True, 1 :: size_t)]) (getTypeWidth example_ctx (''a'', False, 32))
   \<and> bucket_fields (Bucket_add (run_of [(''x'', True, 1)]) (''a'', False, 32)
        (getTypeWidth example_ctx (''a'', False, 32)))
      = [(''x'', True, 1), (''a'', False, 32)]"
  by (simp add: example_ctx_def run_of_eq canFit_def BitfieldRun_canFit_def Bucket_add_def
      isBitfieldRun_def BitfieldRun_isBitfieldRun_def)

lemma partition_example:
  "partition_fields example_ctx [(''x'', True, 1), (''a'', False, 60), (''b'', False, 10),
      (''y'', True, 1), (''z'', True, 1), (''c'', False, 4)]
   = [Some (run_of [(''x'', True, 1)]),
      Some (run_of [(''y'', True, 1), (''z'', True, 1)]),
      Some \<lparr>bitfieldRun = False, bucket_size = 64,
            bucket_fields = [(''a'', False, 60), (''c'', False, 4)]\<rparr>,
      Some \<lparr>bitfieldRun = False, bucket_size = 10, bucket_fields = [(''b'', False, 10)]\<rparr>]"
  by code_simp

text \<open>
  C7, amended. A run's \<open>canFit\<close> succeeds for every member and \<open>add\<close> appends every
  member it is given, bit-field or not. It is \<^verbatim>\<open>perfrandomize\<close> that keeps other members
  out: it adds to the run only in its bit-field branch, so every run the Partitioner
  produces holds bit-fields only.
\<close>

theorem bitfield_run_admission:
  "(isBitfieldRun run \<longrightarrow> canFit run sz)
   \<and> bucket_fields (Bucket_add run f sz) = bucket_fields run @ [f]
   \<and> (Some b \<in> set (partition_fields ctx fs) \<and> isBitfieldRun b
        \<longrightarrow> (\<forall>m\<in>set (bucket_fields b). isBitField ctx m))"
proof -
  have "isBitfieldRun run \<longrightarrow> canFit run sz"
    by (simp add: canFit_def BitfieldRun_canFit_def isBitfieldRun_def
        BitfieldRun_isBitfieldRun_def Bucket_isBitfieldRun_def)
  moreover have "bucket_fields (Bucket_add run f sz) = bucket_fields run @ [f]"
    by (simp add: Bucket_add_def)
  moreover have "Some b \<in> set (partition_fields ctx fs) \<and> isBitfieldRun b
        \<longrightarrow> (\<forall>m\<in>set (bucket_fields b). isBitField ctx m)"
    using kinds_partition [of ctx fs]
    by (auto simp: list_all_iff kinds_kept_def isBitfieldRun_def
        BitfieldRun_isBitfieldRun_def Bucket_isBitfieldRun_def split: if_splits)
  ultimately show ?thesis by blast
qed

theorem bitfield_run_admission_witness:
  "isBitfieldRun (run_of [(''y'', True, 1), (''z'', True, 1 :: size_t)])
   \<and> canFit (run_of [(''y'', True, 1), (''z'', True, 1 :: size_t)]) 32
   \<and> Some (run_of [(''y'', True, 1), (''z'', True, 1)])
       \<in> set (partition_fields example_ctx [(''x'', True, 1), (''a'', False, 60),
             (''b'', False, 10), (''y'', True, 1), (''z'', True, 1), (''c'', False, 4)])
   \<and> bucket_fields (run_of [(''y'', True, 1), (''z'', True, 1 :: size_t)])
       = [(''y'', True, 1), (''z'', True, 1)]
   \<and> isBitField example_ctx (''y'', True, 1) \<and> isBitField example_ctx (''z'', True, 1)"
proof -
  have r: "isBitfieldRun (run_of [(''y'', True, 1), (''z'', True, 1 :: size_t)])"
    by (simp add: run_of_eq isBitfieldRun_def BitfieldRun_isBitfieldRun_def)
  have p: "Some (run_of [(''y'', True, 1), (''z'', True, 1)])
       \<in> set (partition_fields example_ctx [(''x'', True, 1), (''a'', False, 60),
             (''b'', False, 10), (''y'', True, 1), (''z'', True, 1), (''c'', False, 4)])"
    by (simp add: partition_example)
  from bitfield_run_admission [of "run_of [(''y'', True, 1), (''z'', True, 1)]" 32
      "(''y'', True, 1)" "run_of [(''y'', True, 1), (''z'', True, 1)]" example_ctx
      "[(''x'', True, 1), (''a'', False, 60),
             (''b'', False, 10), (''y'', True, 1), (''z'', True, 1), (''c'', False, 4)]"] r p
  show ?thesis by (auto simp: run_of_eq)
qed

subsection \<open>The seed decides\<close>

lemma std_shuffle_may_unique:
  assumes "reproducible lib"
    and "std_shuffle_may lib rng xs ys1" and "std_shuffle_may lib rng xs ys2"
  shows "ys1 = ys2"
proof -
  from assms(2) obtain order1 where 1: "shuffled_order lib rng (length xs) order1"
    "ys1 = map (\<lambda>i. xs ! i) order1"
    by (auto elim: std_shuffle_may.cases)
  from assms(3) obtain order2 where 2: "shuffled_order lib rng (length xs) order2"
    "ys2 = map (\<lambda>i. xs ! i) order2"
    by (auto elim: std_shuffle_may.cases)
  from assms(1) 1(1) 2(1) have "order1 = order2"
    unfolding reproducible_def by blast
  with 1(2) 2(2) show ?thesis by simp
qed

lemma seeded_unique:
  assumes "reproducible lib" and "seed \<noteq> []"
    and "seeded_engine lib seed rng1" and "seeded_engine lib seed rng2"
  shows "rng1 = rng2"
  using assms unfolding reproducible_def by blast

lemma randomize_may_unique:
  assumes r: "reproducible lib" and s: "RandstructSeed g1 = seed" "RandstructSeed g2 = seed"
    "seed \<noteq> []"
    and 1: "randomize_may lib g1 b out1" and 2: "randomize_may lib g2 b out2"
  shows "out1 = out2"
  using 1
proof cases
  case BitfieldRun_randomize_may
  with 2 show ?thesis by (auto elim: randomize_may.cases)
next
  case (Bucket_randomize_may rng1)
  from 2 Bucket_randomize_may(1) obtain rng2 where
    "seeded_engine lib (RandstructSeed g2) rng2" "std_shuffle_may lib rng2 (bucket_fields b) out2"
    by (auto elim: randomize_may.cases)
  moreover from this(1) Bucket_randomize_may(2) s have "rng1 = rng2"
    using seeded_unique [OF r s(3)] by simp
  ultimately show ?thesis
    using Bucket_randomize_may(3) std_shuffle_may_unique [OF r] by blast
qed

lemma final_order_may_unique:
  assumes r: "reproducible lib" and s: "RandstructSeed g1 = seed" "RandstructSeed g2 = seed"
    "seed \<noteq> []"
  shows "final_order_may lib g1 bs out1 \<Longrightarrow> final_order_may lib g2 bs out2 \<Longrightarrow> out1 = out2"
proof (induction bs out1 arbitrary: out2 rule: final_order_may.induct)
  case no_bucket
  then show ?case by (auto elim: final_order_may.cases)
next
  case (null_bucket bs)
  then show ?case by (auto elim: final_order_may.cases)
next
  case (next_ok b xs bs rest)
  from next_ok.prems show ?case
  proof cases
    case (next_ok xs' rest')
    with randomize_may_unique [OF r s next_ok.hyps(1)] next_ok.IH show ?thesis by blast
  next
    case (next_null xs' e)
    with next_ok.IH show ?thesis by blast
  qed
next
  case (next_null b xs bs e)
  from next_null.prems show ?case
  proof cases
    case (next_ok xs' rest')
    with next_null.IH show ?thesis by blast
  next
    case (next_null xs' e')
    with next_null.IH show ?thesis by blast
  qed
qed

text \<open>
  The result computed over a library given by functions is one of the results a call may
  return over that library.
\<close>

lemma randomize_may_function: "randomize_may (relations_of lib) g b (randomize lib g b)"
proof (cases "bitfieldRun b")
  case True
  then show ?thesis
    by (simp add: randomize_def BitfieldRun_randomize_def randomize_may.BitfieldRun_randomize_may)
next
  case False
  have "std_shuffle_may (relations_of lib) (default_random_engine lib (RandstructSeed g))
          (bucket_fields b)
          (std_shuffle lib (default_random_engine lib (RandstructSeed g)) (bucket_fields b))"
    unfolding std_shuffle_def by (rule std_shuffle_may.intros) (simp add: relations_of_def)
  with False show ?thesis
    by (auto simp: randomize_def Bucket_randomize_def relations_of_def
        intro: randomize_may.Bucket_randomize_may)
qed

lemma final_order_may_function:
  "final_order_may (relations_of lib) g bs (final_order lib g bs)"
proof (induction bs)
  case Nil
  show ?case by (simp add: final_order_may.no_bucket)
next
  case (Cons p bs)
  show ?case
  proof (cases p)
    case None
    then show ?thesis by (simp add: final_order_may.null_bucket)
  next
    case (Some b)
    show ?thesis
    proof (cases "final_order lib g bs")
      case (Inl e)
      with Cons Some randomize_may_function [of lib g b] show ?thesis
        by (auto intro: final_order_may.next_null)
    next
      case (Inr rest)
      with Cons Some randomize_may_function [of lib g b] show ?thesis
        by (auto intro: final_order_may.next_ok)
    qed
  qed
qed

lemma rearrange_may_function: "rearrange_may (relations_of lib) g ctx fs (rearrange lib g ctx fs)"
proof -
  let ?rng = "default_random_engine lib (RandstructSeed g)"
  let ?bs = "partition_fields ctx fs"
  have "seeded_engine (relations_of lib) (RandstructSeed g) ?rng"
    by (simp add: relations_of_def)
  moreover have "std_shuffle_may (relations_of lib) ?rng ?bs (std_shuffle lib ?rng ?bs)"
    unfolding std_shuffle_def by (rule std_shuffle_may.intros) (simp add: relations_of_def)
  ultimately show ?thesis
    unfolding rearrange_may_def rearrange_def perfrandomize_def Let_def
    using final_order_may_function by (rule perfrandomize_may.intros)
qed

lemma reproducible_relations_of: "reproducible (relations_of lib)"
  by (simp add: reproducible_def relations_of_def)

lemma rearrange_four:
  "rearrange example_lib example_globals example_ctx
     [(''a'', False, 32), (''b'', False, 32), (''c'', False, 32), (''d'', False, 32)]
   = Inr [(''d'', False, 32), (''c'', False, 32), (''b'', False, 32), (''a'', False, 32)]"
  by code_simp

text \<open>
  C3. Over a reproducible library, with one non-empty seed and one input, whatever two
  calls of \<open>rearrange\<close> return is the same: every shuffle of a call is driven by an
  engine built afresh from the seed, and a call consults nothing else that could differ
  from one call to the next.
\<close>

theorem rearrange_deterministic:
  assumes "reproducible lib"
    and "RandstructSeed g1 = seed" and "RandstructSeed g2 = seed" and "seed \<noteq> []"
    and "rearrange_may lib g1 ctx fs out1" and "rearrange_may lib g2 ctx fs out2"
  shows "out1 = out2"
proof -
  from assms(5) obtain rng1 sh1 where 1: "seeded_engine lib (RandstructSeed g1) rng1"
    "std_shuffle_may lib rng1 (partition_fields ctx fs) sh1" "final_order_may lib g1 sh1 out1"
    by (auto simp: rearrange_may_def elim: perfrandomize_may.cases)
  from assms(6) obtain rng2 sh2 where 2: "seeded_engine lib (RandstructSeed g2) rng2"
    "std_shuffle_may lib rng2 (partition_fields ctx fs) sh2" "final_order_may lib g2 sh2 out2"
    by (auto simp: rearrange_may_def elim: perfrandomize_may.cases)
  from 1(1) 2(1) assms(2,3) have "rng1 = rng2"
    using seeded_unique [OF assms(1,4)] by simp
  with 1(2) 2(2) have "sh1 = sh2"
    using std_shuffle_may_unique [OF assms(1)] by blast
  with 1(3) 2(3) show ?thesis
    using final_order_may_unique [OF assms(1-4)] by blast
qed

theorem rearrange_deterministic_witness:
  "reproducible (relations_of example_lib)
   \<and> RandstructSeed example_globals = ''seed''
   \<and> RandstructSeed (example_globals\<lparr>RandstructAutoSelect := True\<rparr>) = ''seed''
   \<and> ''seed'' \<noteq> []
   \<and> rearrange_may (relations_of example_lib) example_globals example_ctx
        [(''a'', False, 32), (''b'', False, 32), (''c'', False, 32), (''d'', False, 32)]
        (Inr [(''d'', False, 32), (''c'', False, 32), (''b'', False, 32), (''a'', False, 32)])
   \<and> rearrange_may (relations_of example_lib)
        (example_globals\<lparr>RandstructAutoSelect := True\<rparr>) example_ctx
        [(''a'', False, 32), (''b'', False, 32), (''c'', False, 32), (''d'', False, 32)]
        (rearrange example_lib (example_globals\<lparr>RandstructAutoSelect := True\<rparr>) example_ctx
          [(''a'', False, 32), (''b'', False, 32), (''c'', False, 32), (''d'', False, 32)])
   \<and> rearrange example_lib (example_globals\<lparr>RandstructAutoSelect := True\<rparr>) example_ctx
        [(''a'', False, 32), (''b'', False, 32), (''c'', False, 32), (''d'', False, 32)]
      = Inr [(''d'', False, 32), (''c'', False, 32), (''b'', False, 32), (''a'', False, 32)]"
proof -
  let ?fs = "[(''a'', False, 32), (''b'', False, 32), (''c'', False, 32), (''d'', False, 32 :: size_t)]"
  let ?g2 = "example_globals\<lparr>RandstructAutoSelect := True\<rparr>"
  have s: "RandstructSeed example_globals = ''seed''" "RandstructSeed ?g2 = ''seed''"
    "''seed'' \<noteq> []"
    by (simp_all add: example_globals_def)
  have 1: "rearrange_may (relations_of example_lib) example_globals example_ctx ?fs
        (Inr [(''d'', False, 32), (''c'', False, 32), (''b'', False, 32), (''a'', False, 32)])"
    using rearrange_may_function [of example_lib example_globals example_ctx ?fs]
    by (simp only: rearrange_four)
  have 2: "rearrange_may (relations_of example_lib) ?g2 example_ctx ?fs
        (rearrange example_lib ?g2 example_ctx ?fs)"
    by (rule rearrange_may_function)
  from rearrange_deterministic [OF reproducible_relations_of s 1 2]
    reproducible_relations_of [of example_lib] s 1 2
  show ?thesis by simp
qed

text \<open>
  The seed has to be non-empty for this: over the library whose engine is arbitrary for the
  empty seed, which is reproducible, a call with the empty seed may return the two members
  of one bucket in either order.
\<close>

lemma reproducible_fallback_lib: "reproducible fallback_lib"
  by (simp add: reproducible_def fallback_lib_def)

lemma partition_two:
  "partition_fields example_ctx [(''a'', False, 32), (''b'', False, 32)]
   = [Some \<lparr>bitfieldRun = False, bucket_size = 64,
            bucket_fields = [(''a'', False, 32), (''b'', False, 32)]\<rparr>]"
  by code_simp

lemma fallback_randomize:
  "randomize_may fallback_lib initial_globals
     \<lparr>bitfieldRun = False, bucket_size = 64,
      bucket_fields = [(''a'', False, 32), (''b'', False, 32 :: size_t)]\<rparr>
     (map (\<lambda>i. [(''a'', False, 32), (''b'', False, 32)] ! i) (rotate rng [0..<Suc (Suc 0)]))"
proof (rule randomize_may.Bucket_randomize_may [where rng = rng])
  let ?b = "\<lparr>bitfieldRun = False, bucket_size = 64,
      bucket_fields = [(''a'', False, 32), (''b'', False, 32 :: size_t)]\<rparr>"
  show "\<not> bitfieldRun ?b" by simp
  show "seeded_engine fallback_lib (RandstructSeed initial_globals) rng"
    by (simp add: fallback_lib_def initial_globals_def)
  have "std_shuffle_may fallback_lib rng (bucket_fields ?b)
          (map (\<lambda>i. bucket_fields ?b ! i) (rotate rng [0..<Suc (Suc 0)]))"
    by (rule std_shuffle_may.intros) (simp add: fallback_lib_def)
  then show "std_shuffle_may fallback_lib rng (bucket_fields ?b)
          (map (\<lambda>i. [(''a'', False, 32), (''b'', False, 32)] ! i) (rotate rng [0..<Suc (Suc 0)]))"
    by (simp only: Bucket.simps)
qed

lemma fallback_rearrange:
  "rearrange_may fallback_lib initial_globals example_ctx
     [(''a'', False, 32), (''b'', False, 32)]
     (Inr (map (\<lambda>i. [(''a'', False, 32), (''b'', False, 32)] ! i) (rotate rng [0..<Suc (Suc 0)])))"
proof -
  let ?b = "\<lparr>bitfieldRun = False, bucket_size = 64,
      bucket_fields = [(''a'', False, 32), (''b'', False, 32 :: size_t)]\<rparr>"
  let ?bs = "partition_fields example_ctx [(''a'', False, 32), (''b'', False, 32)]"
  have "std_shuffle_may fallback_lib 0 ?bs (map (\<lambda>i. ?bs ! i) (rotate 0 [0..<Suc 0]))"
    by (rule std_shuffle_may.intros) (simp add: fallback_lib_def partition_two)
  then have sh: "std_shuffle_may fallback_lib 0 ?bs [Some ?b]"
    by (simp add: partition_two)
  have "final_order_may fallback_lib initial_globals [Some ?b]
          (Inr (map (\<lambda>i. [(''a'', False, 32), (''b'', False, 32)] ! i) (rotate rng [0..<Suc (Suc 0)]) @ []))"
    by (rule final_order_may.next_ok [OF fallback_randomize final_order_may.no_bucket])
  then have fo: "final_order_may fallback_lib initial_globals [Some ?b]
          (Inr (map (\<lambda>i. [(''a'', False, 32), (''b'', False, 32)] ! i) (rotate rng [0..<Suc (Suc 0)])))"
    by simp
  have "seeded_engine fallback_lib (RandstructSeed initial_globals) 0"
    by (simp add: fallback_lib_def initial_globals_def)
  from perfrandomize_may.intros [OF this sh fo] show ?thesis
    by (simp add: rearrange_may_def)
qed

lemma empty_seed_two_outcomes:
  "reproducible fallback_lib
   \<and> RandstructSeed initial_globals = []
   \<and> rearrange_may fallback_lib initial_globals example_ctx
        [(''a'', False, 32), (''b'', False, 32)] (Inr [(''a'', False, 32), (''b'', False, 32)])
   \<and> rearrange_may fallback_lib initial_globals example_ctx
        [(''a'', False, 32), (''b'', False, 32)] (Inr [(''b'', False, 32), (''a'', False, 32)])"
proof -
  have r0: "map (\<lambda>i. [(''a'', False, 32), (''b'', False, 32 :: size_t)] ! i)
              (rotate 0 [0..<Suc (Suc 0)]) = [(''a'', False, 32), (''b'', False, 32)]"
    by code_simp
  have r1: "map (\<lambda>i. [(''a'', False, 32), (''b'', False, 32 :: size_t)] ! i)
              (rotate (Suc 0) [0..<Suc (Suc 0)]) = [(''b'', False, 32), (''a'', False, 32)]"
    by code_simp
  have "RandstructSeed initial_globals = []"
    by (simp add: initial_globals_def)
  with fallback_rearrange [of 0] fallback_rearrange [of "Suc 0"] reproducible_fallback_lib
  show ?thesis
    by (simp only: r0 r1)
qed





subsection \<open>The capacity of generic buckets\<close>

lemma open_ok_sealed: "open_ok ctx p \<Longrightarrow> sealed_ok ctx p"
  by (auto simp: open_ok_def sealed_ok_def capacity_law_def split: option.splits)

lemma positive_sum_zero:
  "list_all (\<lambda>f. 0 < g f) xs \<Longrightarrow> sum_list (map g xs) = (0::nat) \<Longrightarrow> xs = []"
  by (cases xs) auto

text \<open>Adding a non-bit-field of ordinary width to an open bucket, or to a fresh one.\<close>

lemma add_to_open:
  fixes w :: size_t
  assumes ok: "open_ok ctx (Some b)" and fit: "canFit b (getTypeWidth ctx f)"
    and w: "0 < unat (getTypeWidth ctx f)" "unat (getTypeWidth ctx f) \<le> 2 ^ 63"
  shows "if Bucket_full (Bucket_add b f (getTypeWidth ctx f))
         then sealed_ok ctx (Some (Bucket_add b f (getTypeWidth ctx f)))
         else open_ok ctx (Some (Bucket_add b f (getTypeWidth ctx f)))"
proof -
  let ?w = "getTypeWidth ctx f"
  let ?b = "Bucket_add b f ?w"
  from ok have g: "\<not> bitfieldRun b" and sz: "unat (bucket_size b) = accumulated_width ctx b"
    and lt: "accumulated_width ctx b < 64"
    and pos: "list_all (\<lambda>f. 0 < unat (getTypeWidth ctx f)) (bucket_fields b)"
    by (simp_all add: open_ok_def)
  have no_wrap: "unat (bucket_size b + ?w) = unat (bucket_size b) + unat ?w"
  proof -
    have "unat (bucket_size b) + unat ?w < 2 ^ 64" using sz lt w(2) by simp
    then show ?thesis by (simp add: unat_word_ariths)
  qed
  have acc: "accumulated_width ctx ?b = accumulated_width ctx b + unat ?w"
    by (simp add: accumulated_width_def Bucket_add_def)
  have size': "unat (bucket_size ?b) = accumulated_width ctx ?b"
    using no_wrap sz acc by (simp add: Bucket_add_def)
  have full: "Bucket_full ?b = (64 \<le> accumulated_width ctx ?b)"
    using size' by (simp add: Bucket_full_def CACHE_LINE_def word_le_nat_alt)
  have law: "capacity_law ctx ?b"
  proof (cases "bucket_size b = 0")
    case True
    with sz have "accumulated_width ctx b = 0" by simp
    with pos have "bucket_fields b = []"
      unfolding accumulated_width_def by (rule positive_sum_zero)
    then show ?thesis
      by (auto simp: capacity_law_def accumulated_width_def Bucket_add_def)
  next
    case False
    with fit g have "bucket_size b + ?w \<le> 64"
      by (simp add: canFit_def Bucket_canFit_def Bucket_empty_def CACHE_LINE_def)
    then have "unat (bucket_size b + ?w) \<le> 64"
      by (simp add: word_le_nat_alt)
    with no_wrap sz acc show ?thesis
      by (simp add: capacity_law_def)
  qed
  show ?thesis
  proof (cases "Bucket_full ?b")
    case True
    with law show ?thesis by (simp add: sealed_ok_def)
  next
    case False
    with full have "accumulated_width ctx ?b < 64" by simp
    with False size' g pos w(1) show ?thesis
      by (simp add: open_ok_def Bucket_add_def)
  qed
qed

lemma open_ok_fresh: "open_ok ctx (Some make_Bucket)"
  by (simp add: open_ok_def make_Bucket_def accumulated_width_def)


lemma capacity_inv_step:
  assumes "fields_vec s \<noteq> []" and inv: "capacity_inv ctx s"
  shows "capacity_inv ctx (loop_body ctx s)"
proof -
  from assms(1) obtain f rest where q: "fields_vec s = f # rest"
    by (cases "fields_vec s") auto
  define s1 where "s1 = (if skipped s \<ge> length (fields_vec s)
                then s\<lparr>skipped := 0,
                        buckets := buckets s @ [currentBucket s],
                        currentBucket := None\<rparr>
                else s)"
  have q1: "fields_vec s1 = f # rest" using q by (simp add: s1_def)
  have inv1: "capacity_inv ctx s1"
    using inv open_ok_sealed [of ctx "currentBucket s"]
    by (simp add: s1_def capacity_inv_def open_ok_def)
  have body: "loop_body ctx s =
      (if isBitField ctx f then
           (let run = (case currentBitfieldRun s1 of
                         None \<Rightarrow> make_BitfieldRun
                       | Some r \<Rightarrow> r)
            in s1\<lparr>currentBitfieldRun := Some (Bucket_add run f 1),
                  fields_vec := tl (fields_vec s1)\<rparr>)
         else
           (let s2 = (case currentBitfieldRun s1 of
                        None \<Rightarrow> s1
                      | Some r \<Rightarrow> s1\<lparr>buckets := buckets s1 @ [Some r],
                                     currentBitfieldRun := None\<rparr>);
                b = (case currentBucket s2 of
                       None \<Rightarrow> make_Bucket
                     | Some b \<Rightarrow> b);
                width = getTypeWidth ctx f
            in if canFit b width then
                 (let b' = Bucket_add b f width;
                      s3 = s2\<lparr>fields_vec := tl (fields_vec s2)\<rparr>
                  in if Bucket_full b'
                     then s3\<lparr>skipped := 0,
                             buckets := buckets s3 @ [Some b'],
                             currentBucket := None\<rparr>
                     else s3\<lparr>currentBucket := Some b'\<rparr>)
               else
                 s2\<lparr>currentBucket := Some b,
                    skipped := skipped s2 + 1,
                    fields_vec := tl (fields_vec s2 @ [f])\<rparr>))"
    using q1 unfolding loop_body_def s1_def [symmetric] by (simp add: Let_def)
  show ?thesis
  proof (cases "isBitField ctx f")
    case True
    with body have "loop_body ctx s =
        s1\<lparr>currentBitfieldRun :=
             Some (Bucket_add (case currentBitfieldRun s1 of
                         None \<Rightarrow> make_BitfieldRun
                       | Some r \<Rightarrow> r) f 1),
           fields_vec := rest\<rparr>"
      using q1 by (simp add: Let_def)
    with inv1 q1 show ?thesis
      by (auto simp: capacity_inv_def Bucket_add_def make_BitfieldRun_def split: option.splits)
  next
    case False
    define s2 where "s2 = (case currentBitfieldRun s1 of
                        None \<Rightarrow> s1
                      | Some r \<Rightarrow> s1\<lparr>buckets := buckets s1 @ [Some r],
                                     currentBitfieldRun := None\<rparr>)"
    define b where "b = (case currentBucket s2 of None \<Rightarrow> make_Bucket | Some b \<Rightarrow> b)"
    let ?w = "getTypeWidth ctx f"
    have q2: "fields_vec s2 = f # rest"
      using q1 by (simp add: s2_def split: option.splits)
    have inv2: "capacity_inv ctx s2" and run2: "currentBitfieldRun s2 = None"
      using inv1 by (auto simp: s2_def capacity_inv_def sealed_ok_def split: option.splits)
    have okb: "open_ok ctx (Some b)"
      using inv2 open_ok_fresh [of ctx]
      by (auto simp: b_def capacity_inv_def split: option.splits)
    from inv2 q2 False have w: "0 < unat ?w" "unat ?w \<le> 2 ^ 63"
      by (simp_all add: capacity_inv_def ordinary_width_def)
    have rest_ok: "list_all (ordinary_width ctx) rest" "ordinary_width ctx f"
      using inv2 q2 by (simp_all add: capacity_inv_def)
    show ?thesis
    proof (cases "canFit b ?w")
      case fit: True
      let ?b' = "Bucket_add b f ?w"
      show ?thesis
      proof (cases "Bucket_full ?b'")
        case True
        with body False fit have "loop_body ctx s =
            s2\<lparr>fields_vec := rest, skipped := 0,
               buckets := buckets s2 @ [Some ?b'], currentBucket := None\<rparr>"
          using q2 unfolding s2_def [symmetric] Let_def b_def [symmetric] by simp
        moreover have "sealed_ok ctx (Some ?b')"
          using add_to_open [OF okb fit w] True by simp
        ultimately show ?thesis
          using inv2 rest_ok by (simp add: capacity_inv_def open_ok_def)
      next
        case nf: False
        with body False fit have "loop_body ctx s =
            s2\<lparr>fields_vec := rest, currentBucket := Some ?b'\<rparr>"
          using q2 unfolding s2_def [symmetric] Let_def b_def [symmetric] by simp
        moreover have "open_ok ctx (Some ?b')"
          using add_to_open [OF okb fit w] nf by simp
        ultimately show ?thesis
          using inv2 rest_ok by (simp add: capacity_inv_def)
      qed
    next
      case nofit: False
      with body False have "loop_body ctx s =
          s2\<lparr>currentBucket := Some b, skipped := skipped s2 + 1, fields_vec := rest @ [f]\<rparr>"
        using q2 unfolding s2_def [symmetric] Let_def b_def [symmetric] by simp
      then show ?thesis
        using inv2 rest_ok okb by (simp add: capacity_inv_def)
    qed
  qed
qed

lemma capacity_law_ordinary_widths:
  assumes "\<forall>f\<in>set fs. ordinary_width ctx f"
    and "Some b \<in> set (partition_fields ctx fs)" and "\<not> isBitfieldRun b"
  shows "capacity_law ctx b"
proof -
  have "capacity_inv ctx (initial_locals fs)"
    using assms(1) by (simp add: capacity_inv_def initial_locals_def open_ok_def list_all_iff)
  then have "capacity_inv ctx (perfrandomize_loop ctx (initial_locals fs))"
    by (rule loop_invariant) (simp add: capacity_inv_step)
  then have "list_all (sealed_ok ctx) (partition_fields ctx fs)"
    using open_ok_sealed [of ctx "currentBucket (perfrandomize_loop ctx (initial_locals fs))"]
    by (auto simp: partition_fields_def tie_off_def capacity_inv_def Let_def sealed_ok_def
        split: option.splits)
  with assms(2,3) show ?thesis
    by (auto simp: list_all_iff sealed_ok_def isBitfieldRun_def BitfieldRun_isBitfieldRun_def
        Bucket_isBitfieldRun_def split: if_splits)
qed

text \<open>
  C4. \<open>Bucket::empty\<close> tests \<open>size == 0\<close>, not whether the bucket holds members. After
  a member of width 0 the bucket still counts as empty and admits a member of any width:
  the two end up in one group, whose accumulated width of 128 exceeds the cache line,
  although its first member is not oversized and the oversized member is not alone.
\<close>

theorem zero_width_member_shares_group:
  "partition_fields example_ctx zero_then_wide
     = [Some \<lparr>bitfieldRun = False, bucket_size = 128, bucket_fields = zero_then_wide\<rparr>]
   \<and> accumulated_width example_ctx
        \<lparr>bitfieldRun = False, bucket_size = 128, bucket_fields = zero_then_wide\<rparr> = 128
   \<and> \<not> capacity_law example_ctx
        \<lparr>bitfieldRun = False, bucket_size = 128, bucket_fields = zero_then_wide\<rparr>"
  by code_simp

end
